theory Spec2Isabelle
  imports Main "HOL-Library.Word"
begin

unbundle bit_operations_syntax

section \<open>The sequence lock of package seqmut (rwmutex.go)\<close>

subsection \<open>Data\<close>

text \<open>\<^verbatim>\<open>type Stamp uint64\<close>\<close>

type_synonym Stamp = "64 word"

text \<open>
  Go's \<^verbatim>\<open>sync.Mutex\<close> belongs to the standard library, not to this package. Its state
  is one of two values; the zero value is the unlocked mutex.
\<close>

datatype Mutex = Unlocked | Locked

text \<open>
  \<^verbatim>\<open>type RWMutex struct { mut sync.Mutex; sequence uint64 }\<close>
\<close>

record RWMutex =
  mut :: Mutex
  sequence :: "64 word"

text \<open>
  What a call of the writer path can do: return with the lock in a new state, block
  (the calling goroutine is parked and the lock is left as it was), or hit the run-time's
  fatal error, in which case the value is the lock's state at the moment of the abort.
\<close>

datatype outcome = Returns RWMutex | Blocks | Fatal RWMutex

subsection \<open>The standard-library operations the package calls\<close>

text \<open>
  \<^verbatim>\<open>sync.Mutex.Lock\<close>: "If the lock is already in use, the calling goroutine blocks
  until the mutex is available." \<open>None\<close> is the blocked call.
\<close>

definition mutex_Lock :: "Mutex \<Rightarrow> Mutex option" where
  "mutex_Lock m = (case m of Unlocked \<Rightarrow> Some Locked | Locked \<Rightarrow> None)"

text \<open>
  \<^verbatim>\<open>sync.Mutex.Unlock\<close>: "It is a run-time error if m is not locked on entry to
  Unlock." The run-time reports \<^verbatim>\<open>fatal error: sync: unlock of unlocked mutex\<close> and
  the process ends; \<open>None\<close> is that abort.
\<close>

definition mutex_Unlock :: "Mutex \<Rightarrow> Mutex option" where
  "mutex_Unlock m = (case m of Locked \<Rightarrow> Some Unlocked | Unlocked \<Rightarrow> None)"

text \<open>\<^verbatim>\<open>atomic.LoadUint64(&rw.sequence)\<close>\<close>

definition atomic_LoadUint64 :: "RWMutex \<Rightarrow> 64 word" where
  "atomic_LoadUint64 rw = sequence rw"

text \<open>\<^verbatim>\<open>atomic.AddUint64(&rw.sequence, delta)\<close>; addition on \<open>64 word\<close> wraps.\<close>

definition atomic_AddUint64 :: "RWMutex \<Rightarrow> 64 word \<Rightarrow> RWMutex" where
  "atomic_AddUint64 rw delta = rw\<lparr>sequence := sequence rw + delta\<rparr>"

subsection \<open>The four methods\<close>

text \<open>
  \<^verbatim>\<open>
  func (rw *RWMutex) RStamp() *Stamp {
      stamp := Stamp(atomic.LoadUint64(&rw.sequence))
      return &stamp
  }
  \<close>
  The result points to a fresh variable, so it is modelled by its value. The lock is
  passed through, so that what the call does to it is part of the result.
\<close>

definition RStamp :: "RWMutex \<Rightarrow> Stamp \<times> RWMutex" where
  "RStamp rw = (atomic_LoadUint64 rw, rw)"

text \<open>
  \<^verbatim>\<open>
  func (rw *RWMutex) Ok(stamp *Stamp) (ok bool) {
      current := rw.RStamp()
      if (*stamp & 1) == 1 {
          *stamp = *current
          return false
      }
      if *current != *stamp {
          *stamp = *current
          return false
      }
      return true
  }
  \<close>
  The result is the returned flag, the value of \<^verbatim>\<open>*stamp\<close> after the call, and the lock.
\<close>

definition Ok :: "RWMutex \<Rightarrow> Stamp \<Rightarrow> bool \<times> Stamp \<times> RWMutex" where
  "Ok rw stamp =
     (case RStamp rw of (current, rw1) \<Rightarrow>
        if stamp AND 1 = 1 then (False, current, rw1)
        else if current \<noteq> stamp then (False, current, rw1)
        else (True, stamp, rw1))"

text \<open>
  \<^verbatim>\<open>
  func (rw *RWMutex) Lock() {
      rw.mut.Lock()
      atomic.AddUint64(&rw.sequence, 1)
  }
  \<close>
\<close>

definition Lock :: "RWMutex \<Rightarrow> outcome" where
  "Lock rw =
     (case mutex_Lock (mut rw) of
        None \<Rightarrow> Blocks
      | Some m \<Rightarrow> Returns (atomic_AddUint64 (rw\<lparr>mut := m\<rparr>) 1))"

text \<open>
  \<^verbatim>\<open>
  func (rw *RWMutex) Unlock() {
      atomic.AddUint64(&rw.sequence, 1)
      rw.mut.Unlock()
  }
  \<close>
\<close>

definition Unlock :: "RWMutex \<Rightarrow> outcome" where
  "Unlock rw =
     (let rw1 = atomic_AddUint64 rw 1 in
      case mutex_Unlock (mut rw1) of
        None \<Rightarrow> Fatal rw1
      | Some m \<Rightarrow> Returns (rw1\<lparr>mut := m\<rparr>))"

subsection \<open>The validation algorithm as the specification words it\<close>

text \<open>
  Validate(stamp): 1. load the current sequence into \<open>current\<close>; 2. if the original stamp
  value is odd, set the stamp to \<open>current\<close> and return false; 3. else if \<open>current\<close> differs
  from the stamp, set the stamp to \<open>current\<close> and return false; 4. else return true.
  Oddness is that of the stamp read as an unsigned number.
\<close>

definition Validate_spec :: "RWMutex \<Rightarrow> Stamp \<Rightarrow> bool \<times> Stamp \<times> RWMutex" where
  "Validate_spec rw stamp =
     (let current = sequence rw in
      if odd (unat stamp) then (False, current, rw)
      else if current \<noteq> stamp then (False, current, rw)
      else (True, stamp, rw))"

subsection \<open>Sequential executions\<close>

text \<open>
  One caller after another uses the lock: a call runs to its end before the next starts.
  \<open>OpOk s\<close> is a call of \<^verbatim>\<open>Ok\<close> on a stamp whose value is \<open>s\<close>.
\<close>

datatype op = OpLock | OpUnlock | OpRStamp | OpOk Stamp

fun exec :: "op \<Rightarrow> RWMutex \<Rightarrow> outcome" where
  "exec OpLock rw = Lock rw"
| "exec OpUnlock rw = Unlock rw"
| "exec OpRStamp rw = Returns (snd (RStamp rw))"
| "exec (OpOk s) rw = Returns (snd (snd (Ok rw s)))"

text \<open>
  A blocked call never returns when nobody else runs, and a fatal error ends the process:
  in both cases the rest of the calls is not executed.
\<close>

fun run :: "op list \<Rightarrow> RWMutex \<Rightarrow> outcome" where
  "run [] rw = Returns rw"
| "run (c # cs) rw =
     (case exec c rw of
        Returns rw' \<Rightarrow> run cs rw'
      | Blocks \<Rightarrow> Blocks
      | Fatal rw' \<Rightarrow> Fatal rw')"

text \<open>
  The history of calls, independent of the lock's state. \<open>alternates w cs\<close>: in \<open>cs\<close> every
  \<^verbatim>\<open>Lock\<close> is followed by its \<^verbatim>\<open>Unlock\<close> before the next \<^verbatim>\<open>Lock\<close>, and every
  \<^verbatim>\<open>Unlock\<close> has its \<^verbatim>\<open>Lock\<close>; \<open>w\<close> says whether a writer is inside its critical
  section when \<open>cs\<close> starts. \<open>writer_inside w cs\<close>: after \<open>cs\<close> a \<^verbatim>\<open>Lock\<close> has returned
  whose \<^verbatim>\<open>Unlock\<close> has not been called yet.
\<close>

fun alternates :: "bool \<Rightarrow> op list \<Rightarrow> bool" where
  "alternates w [] = True"
| "alternates w (OpLock # cs) = (\<not> w \<and> alternates True cs)"
| "alternates w (OpUnlock # cs) = (w \<and> alternates False cs)"
| "alternates w (OpRStamp # cs) = alternates w cs"
| "alternates w (OpOk s # cs) = alternates w cs"

fun writer_inside :: "bool \<Rightarrow> op list \<Rightarrow> bool" where
  "writer_inside w [] = w"
| "writer_inside w (OpLock # cs) = writer_inside True cs"
| "writer_inside w (OpUnlock # cs) = writer_inside False cs"
| "writer_inside w (OpRStamp # cs) = writer_inside w cs"
| "writer_inside w (OpOk s # cs) = writer_inside w cs"

text \<open>The calls of the writer path in a history, and histories without any.\<close>

fun is_write :: "op \<Rightarrow> bool" where
  "is_write OpLock = True"
| "is_write OpUnlock = True"
| "is_write OpRStamp = False"
| "is_write (OpOk s) = False"

definition writes :: "op list \<Rightarrow> nat" where
  "writes cs = length (filter is_write cs)"

definition reads_only :: "op list \<Rightarrow> bool" where
  "reads_only cs = (writes cs = 0)"

subsection \<open>Concurrent writers\<close>

text \<open>
  The writers of the test file:
  \<^verbatim>\<open>
  for i := 0; i < num_iterations; i++ {
      rwm.Lock()
      ... critical section ...
      rwm.Unlock()
  }
  \<close>
  Each of \<^verbatim>\<open>Lock\<close> and \<^verbatim>\<open>Unlock\<close> is two calls on the lock's state, and other
  goroutines run between them. A writer is at one of four places.
\<close>

datatype place =
    Outside \<comment> \<open>before \<^verbatim>\<open>Lock\<close>, or in \<^verbatim>\<open>rw.mut.Lock()\<close> waiting for the mutex\<close>
  | Acquired \<comment> \<open>in \<^verbatim>\<open>Lock\<close>: \<^verbatim>\<open>rw.mut.Lock()\<close> has returned, the increment is next\<close>
  | Critical \<comment> \<open>\<^verbatim>\<open>Lock\<close> has returned and \<^verbatim>\<open>Unlock\<close> is not called yet\<close>
  | Incremented \<comment> \<open>in \<^verbatim>\<open>Unlock\<close>: the increment is done, \<^verbatim>\<open>rw.mut.Unlock()\<close> is next\<close>

record system =
  lock :: RWMutex
  place_of :: "nat \<Rightarrow> place"

text \<open>
  Goroutine \<open>t\<close> makes its next call on the lock's state. The calls are the mutex's and
  \<^verbatim>\<open>sync/atomic\<close>'s, which Go orders sequentially consistently, so an execution is an
  interleaving of them. A goroutine that waits for the mutex makes no progress; \<open>None\<close> is
  the run-time's fatal error.
\<close>

definition step :: "nat \<Rightarrow> system \<Rightarrow> system option" where
  "step t \<sigma> =
     (case place_of \<sigma> t of
        Outside \<Rightarrow>
          (case mutex_Lock (mut (lock \<sigma>)) of
             None \<Rightarrow> Some \<sigma>
           | Some m \<Rightarrow> Some (\<sigma>\<lparr>lock := (lock \<sigma>)\<lparr>mut := m\<rparr>,
                              place_of := (place_of \<sigma>)(t := Acquired)\<rparr>))
      | Acquired \<Rightarrow>
          Some (\<sigma>\<lparr>lock := atomic_AddUint64 (lock \<sigma>) 1,
                  place_of := (place_of \<sigma>)(t := Critical)\<rparr>)
      | Critical \<Rightarrow>
          Some (\<sigma>\<lparr>lock := atomic_AddUint64 (lock \<sigma>) 1,
                  place_of := (place_of \<sigma>)(t := Incremented)\<rparr>)
      | Incremented \<Rightarrow>
          (case mutex_Unlock (mut (lock \<sigma>)) of
             None \<Rightarrow> None
           | Some m \<Rightarrow> Some (\<sigma>\<lparr>lock := (lock \<sigma>)\<lparr>mut := m\<rparr>,
                              place_of := (place_of \<sigma>)(t := Outside)\<rparr>)))"

text \<open>A schedule names the goroutine that moves next; any list of names is one.\<close>

fun run_schedule :: "nat list \<Rightarrow> system \<Rightarrow> system option" where
  "run_schedule [] \<sigma> = Some \<sigma>"
| "run_schedule (t # ts) \<sigma> =
     (case step t \<sigma> of None \<Rightarrow> None | Some \<sigma>' \<Rightarrow> run_schedule ts \<sigma>')"

text \<open>
  \<^verbatim>\<open>var rwm RWMutex; rwm.sequence = initialSequence\<close>: the mutex is unlocked and no
  writer has called \<^verbatim>\<open>Lock\<close> yet.
\<close>

definition initial :: "64 word \<Rightarrow> system" where
  "initial seq0 = \<lparr>lock = \<lparr>mut = Unlocked, sequence = seq0\<rparr>, place_of = (\<lambda>t. Outside)\<rparr>"

text \<open>
  Two properties of a state of the system, used as invariants. \<open>exclusive\<close>: the mutex
  is free and every writer is outside, or it is held and exactly one writer is past
  \<^verbatim>\<open>rw.mut.Lock()\<close>. \<open>parity_ok\<close>: the sequence is odd exactly when some writer is in its
  critical section.
\<close>

definition exclusive :: "system \<Rightarrow> bool" where
  "exclusive \<sigma> =
     (case mut (lock \<sigma>) of
        Unlocked \<Rightarrow> (\<forall>t. place_of \<sigma> t = Outside)
      | Locked \<Rightarrow>
          (\<exists>h. place_of \<sigma> h \<noteq> Outside \<and> (\<forall>t. t \<noteq> h \<longrightarrow> place_of \<sigma> t = Outside)))"

definition parity_ok :: "system \<Rightarrow> bool" where
  "parity_ok \<sigma> = (odd (unat (sequence (lock \<sigma>))) = (\<exists>t. place_of \<sigma> t = Critical))"

section \<open>Properties\<close>

subsection \<open>Parity of a 64-bit counter\<close>

lemma even_unat_word: "even (unat (w :: 64 word)) = even w"
  by transfer (simp add: even_nat_iff)

lemma low_bit_odd: "(w AND 1 = 1) = odd (unat (w :: 64 word))"
  by (simp add: and_one_eq even_unat_word odd_iff_mod_2_eq_one)

lemma parity_succ: "odd (unat (w + 1)) = even (unat (w :: 64 word))"
  by (simp add: even_unat_word)

lemma unat_succ: "unat (w + 1 :: 64 word) = (unat w + 1) mod 2 ^ 64"
  by (simp add: unat_word_ariths)

subsection \<open>The methods in closed form\<close>

lemma Ok_eq:
  "Ok rw s = (if odd (unat s) then (False, sequence rw, rw)
              else if sequence rw \<noteq> s then (False, sequence rw, rw)
              else (True, s, rw))"
  by (simp add: Ok_def RStamp_def atomic_LoadUint64_def low_bit_odd)

lemma RStamp_eq: "RStamp rw = (sequence rw, rw)"
  by (simp add: RStamp_def atomic_LoadUint64_def)

lemma Lock_Unlocked:
  "mut rw = Unlocked \<Longrightarrow> Lock rw = Returns (rw\<lparr>mut := Locked, sequence := sequence rw + 1\<rparr>)"
  by (simp add: Lock_def mutex_Lock_def atomic_AddUint64_def)

lemma Lock_Locked: "mut rw = Locked \<Longrightarrow> Lock rw = Blocks"
  by (simp add: Lock_def mutex_Lock_def)

lemma Unlock_Locked:
  "mut rw = Locked \<Longrightarrow> Unlock rw = Returns (rw\<lparr>sequence := sequence rw + 1, mut := Unlocked\<rparr>)"
  by (simp add: Unlock_def mutex_Unlock_def atomic_AddUint64_def)

lemma Unlock_Unlocked:
  "mut rw = Unlocked \<Longrightarrow> Unlock rw = Fatal (rw\<lparr>sequence := sequence rw + 1\<rparr>)"
  by (simp add: Unlock_def mutex_Unlock_def atomic_AddUint64_def)

lemma Ok_lock: "snd (snd (Ok rw s)) = rw"
  by (simp add: Ok_eq)

lemma RStamp_lock: "snd (RStamp rw) = rw"
  by (simp add: RStamp_eq)

subsection \<open>Validation\<close>

text \<open>
  C1. For every lock and every stamp, \<^verbatim>\<open>Ok\<close> computes what the specification's
  Validate computes: it loads the current sequence; if the stamp it was given is odd, the
  stamp becomes the current sequence and the result is false; otherwise, if the current
  sequence differs from the stamp, the stamp becomes the current sequence and the result
  is false; otherwise the result is true. The code tests the lowest bit of the stamp, the
  specification its oddness.
\<close>

theorem Ok_refines_Validate_spec: "Ok rw s = Validate_spec rw s"
  by (simp add: Ok_eq Validate_spec_def)

subsection \<open>The parity invariant along sequential executions\<close>

lemma alternates_take: "alternates w cs \<Longrightarrow> alternates w (take n cs)"
proof (induction cs arbitrary: w n)
  case Nil
  then show ?case by simp
next
  case (Cons c cs)
  show ?case
  proof (cases n)
    case 0
    then show ?thesis by simp
  next
    case (Suc k)
    with Cons show ?thesis by (cases c) auto
  qed
qed

text \<open>
  The invariant, generalised to a start inside a critical section: the mutex is held
  and the sequence is odd exactly when the history says that a writer is inside.
\<close>

lemma run_alternates:
  assumes "alternates w cs"
    and "mut rw = (if w then Locked else Unlocked)"
    and "odd (unat (sequence rw)) = w"
  shows "\<exists>rw'. run cs rw = Returns rw'
           \<and> mut rw' = (if writer_inside w cs then Locked else Unlocked)
           \<and> odd (unat (sequence rw')) = writer_inside w cs"
  using assms
proof (induction cs arbitrary: w rw)
  case Nil
  then show ?case by simp
next
  case (Cons c cs)
  show ?case
  proof (cases c)
    case OpLock
    with Cons.prems have w: "\<not> w" and alt: "alternates True cs" by simp_all
    from w Cons.prems have m: "mut rw = Unlocked" and e: "even (unat (sequence rw))" by simp_all
    let ?rw1 = "rw\<lparr>mut := Locked, sequence := sequence rw + 1\<rparr>"
    have "\<exists>rw'. run cs ?rw1 = Returns rw'
           \<and> mut rw' = (if writer_inside True cs then Locked else Unlocked)
           \<and> odd (unat (sequence rw')) = writer_inside True cs"
      using alt e by (intro Cons.IH) (simp_all add: parity_succ)
    then show ?thesis using OpLock m by (simp add: Lock_Unlocked)
  next
    case OpUnlock
    with Cons.prems have w: "w" and alt: "alternates False cs" by simp_all
    from w Cons.prems have m: "mut rw = Locked" and e: "odd (unat (sequence rw))" by simp_all
    let ?rw1 = "rw\<lparr>sequence := sequence rw + 1, mut := Unlocked\<rparr>"
    have "\<exists>rw'. run cs ?rw1 = Returns rw'
           \<and> mut rw' = (if writer_inside False cs then Locked else Unlocked)
           \<and> odd (unat (sequence rw')) = writer_inside False cs"
      using alt e by (intro Cons.IH) (simp_all add: parity_succ)
    then show ?thesis using OpUnlock m by (simp add: Unlock_Locked)
  next
    case OpRStamp
    with Cons.prems have alt: "alternates w cs" by simp
    from Cons.IH [OF alt Cons.prems(2) Cons.prems(3)] show ?thesis
      using OpRStamp by (simp add: RStamp_lock)
  next
    case (OpOk s)
    with Cons.prems have alt: "alternates w cs" by simp
    from Cons.IH [OF alt Cons.prems(2) Cons.prems(3)] show ?thesis
      using OpOk by (simp add: Ok_lock)
  qed
qed

text \<open>
  C2. Parity invariant. Take a lock whose mutex is free and whose sequence is any even
  64-bit value, and any history of calls in which \<^verbatim>\<open>Lock\<close> and its \<^verbatim>\<open>Unlock\<close>
  alternate, with calls of \<^verbatim>\<open>RStamp\<close> and \<^verbatim>\<open>Ok\<close> (on any stamp) anywhere in between.
  After every number \<open>n\<close> of its calls the execution has returned, and the sequence is odd
  if and only if a \<^verbatim>\<open>Lock\<close> has returned whose \<^verbatim>\<open>Unlock\<close> is still to come. The start
  value is arbitrary, so the executions that wrap past the largest value are among them.
\<close>

theorem parity_invariant:
  assumes "mut rw0 = Unlocked" and "even (unat (sequence rw0))" and "alternates False cs"
  shows "\<exists>rw. run (take n cs) rw0 = Returns rw
           \<and> odd (unat (sequence rw)) = writer_inside False (take n cs)"
proof -
  have "alternates False (take n cs)" using assms(3) by (rule alternates_take)
  from run_alternates [OF this, of rw0] assms(1,2) show ?thesis by auto
qed

theorem parity_invariant_witness:
  "mut \<lparr>mut = Unlocked, sequence = 0xFFFFFFFFFFFFFFFE\<rparr> = Unlocked
   \<and> even (unat (sequence \<lparr>mut = Unlocked, sequence = 0xFFFFFFFFFFFFFFFE\<rparr>))
   \<and> alternates False [OpLock, OpOk 4, OpUnlock, OpRStamp, OpLock, OpUnlock]
   \<and> (\<exists>rw. run (take 5 [OpLock, OpOk 4, OpUnlock, OpRStamp, OpLock, OpUnlock])
               \<lparr>mut = Unlocked, sequence = 0xFFFFFFFFFFFFFFFE\<rparr> = Returns rw
         \<and> odd (unat (sequence rw))
            = writer_inside False (take 5 [OpLock, OpOk 4, OpUnlock, OpRStamp, OpLock, OpUnlock]))"
  using parity_invariant [of "\<lparr>mut = Unlocked, sequence = 0xFFFFFFFFFFFFFFFE\<rparr>"
      "[OpLock, OpOk 4, OpUnlock, OpRStamp, OpLock, OpUnlock]" 5]
  by simp

subsection \<open>Validation against an active writer\<close>

lemma Ok_odd_sequence: "odd (unat (sequence rw)) \<Longrightarrow> Ok rw s = (False, sequence rw, rw)"
  by (auto simp add: Ok_eq)

text \<open>Calls of the reader path leave the lock as it is.\<close>

lemma run_reads_only: "reads_only cs \<Longrightarrow> run cs rw = Returns rw"
proof (induction cs)
  case Nil
  then show ?case by simp
next
  case (Cons c cs)
  then show ?case
    by (cases c) (simp_all add: reads_only_def writes_def RStamp_lock Ok_lock)
qed

text \<open>Every call of the writer path that returns adds one to the sequence.\<close>

lemma run_sequence:
  "run cs rw = Returns rw' \<Longrightarrow> sequence rw' = sequence rw + of_nat (writes cs)"
proof (induction cs arbitrary: rw)
  case Nil
  then show ?case by (simp add: writes_def)
next
  case (Cons c cs)
  show ?case
  proof (cases c)
    case OpLock
    show ?thesis
    proof (cases "mut rw")
      case Unlocked
      with Cons.prems OpLock
      have "run cs (rw\<lparr>mut := Locked, sequence := sequence rw + 1\<rparr>) = Returns rw'"
        by (simp add: Lock_Unlocked)
      from Cons.IH [OF this] OpLock show ?thesis by (simp add: writes_def)
    next
      case Locked
      with Cons.prems OpLock show ?thesis by (simp add: Lock_Locked)
    qed
  next
    case OpUnlock
    show ?thesis
    proof (cases "mut rw")
      case Unlocked
      with Cons.prems OpUnlock show ?thesis by (simp add: Unlock_Unlocked)
    next
      case Locked
      with Cons.prems OpUnlock
      have "run cs (rw\<lparr>sequence := sequence rw + 1, mut := Unlocked\<rparr>) = Returns rw'"
        by (simp add: Unlock_Locked)
      from Cons.IH [OF this] OpUnlock show ?thesis by (simp add: writes_def)
    qed
  next
    case OpRStamp
    with Cons.prems have "run cs rw = Returns rw'" by (simp add: RStamp_lock)
    from Cons.IH [OF this] OpRStamp show ?thesis by (simp add: writes_def)
  next
    case (OpOk s)
    with Cons.prems have "run cs rw = Returns rw'" by (simp add: Ok_lock)
    from Cons.IH [OF this] OpOk show ?thesis by (simp add: writes_def)
  qed
qed

text \<open>
  The whole of a reader's window, from its \<^verbatim>\<open>RStamp\<close> to its \<^verbatim>\<open>Ok\<close>: a stamp that
  validates was taken at an even sequence and has seen a number of calls of the writer
  path that is a multiple of \<open>2 ^ 64\<close>, so none at all when fewer than \<open>2 ^ 64\<close>
  happened. The bound is that of the 64-bit counter, which is back at the stamp's value
  after \<open>2 ^ 64\<close> increments.
\<close>

lemma Ok_true_window:
  assumes "RStamp rw = (s, rw1)" and "run cs rw1 = Returns rw2" and "fst (Ok rw2 s)"
    and "writes cs < 2 ^ 64"
  shows "even (unat (sequence rw)) \<and> writes cs = 0"
proof -
  from assms(1) have s: "s = sequence rw" and rw1: "rw1 = rw" by (auto simp add: RStamp_eq)
  from assms(3) have e: "even (unat s)" and q: "sequence rw2 = s"
    by (simp_all add: Ok_eq split: if_splits)
  from run_sequence [OF assms(2)] q s rw1
  have "(of_nat (writes cs) :: 64 word) = 0" by simp
  then have "2 ^ 64 dvd writes cs"
    by (simp add: word_of_nat_eq_0_iff)
  with assms(4) have "writes cs = 0"
    by (auto dest: dvd_imp_le)
  with e s show ?thesis by simp
qed

text \<open>Histories in two parts: what came before a reader's window, and the window.\<close>

lemma alternates_append:
  "alternates w (xs @ ys) = (alternates w xs \<and> alternates (writer_inside w xs) ys)"
proof (induction xs arbitrary: w)
  case Nil
  show ?case by simp
next
  case (Cons c xs)
  then show ?case by (cases c) simp_all
qed

lemma writer_inside_append:
  "writer_inside w (xs @ ys) = writer_inside (writer_inside w xs) ys"
proof (induction xs arbitrary: w)
  case Nil
  show ?case by simp
next
  case (Cons c xs)
  then show ?case by (cases c) simp_all
qed

lemma writer_inside_no_writes:
  "writes cs = 0 \<Longrightarrow> writer_inside w (take n cs) = w"
proof (induction cs arbitrary: n)
  case Nil
  show ?case by simp
next
  case (Cons c cs)
  show ?case
  proof (cases n)
    case 0
    then show ?thesis by simp
  next
    case (Suc k)
    with Cons show ?thesis by (cases c) (simp_all add: writes_def)
  qed
qed

text \<open>
  C3, as the code has it. \<^verbatim>\<open>Ok\<close> never returns true while a writer is inside its
  critical section: in every state that an execution as in the parity invariant reaches
  with a \<^verbatim>\<open>Lock\<close> returned and its \<^verbatim>\<open>Unlock\<close> not yet called, the sequence is odd and
  \<^verbatim>\<open>Ok\<close> returns false on every stamp (and hands out the current sequence as the new
  stamp). And for a reader's window: after any history \<open>pre\<close> the reader takes its stamp,
  the calls \<open>win\<close> follow, and the reader validates. Everything returns; if \<^verbatim>\<open>Ok\<close> is
  true and fewer than \<open>2 ^ 64\<close> calls of \<^verbatim>\<open>Lock\<close> and \<^verbatim>\<open>Unlock\<close> ran in the window, then
  none ran at all and no writer was inside at any state of the window, from the one the
  stamp was taken in to the one \<^verbatim>\<open>Ok\<close> loads the sequence in.
\<close>

theorem Ok_guards_reader_window:
  assumes "mut rw0 = Unlocked" and "even (unat (sequence rw0))"
    and "alternates False cs" and "alternates False (pre @ win)"
  shows "(writer_inside False cs \<longrightarrow>
            (\<exists>rw. run cs rw0 = Returns rw \<and> odd (unat (sequence rw))
               \<and> (\<forall>s. Ok rw s = (False, sequence rw, rw))))
         \<and> (\<exists>rw1 s rw2.
               run pre rw0 = Returns rw1 \<and> RStamp rw1 = (s, rw1) \<and> run win rw1 = Returns rw2
               \<and> (fst (Ok rw2 s) \<and> writes win < 2 ^ 64 \<longrightarrow>
                    writes win = 0 \<and> (\<forall>n. \<not> writer_inside False (pre @ take n win))))"
proof
  show "writer_inside False cs \<longrightarrow>
            (\<exists>rw. run cs rw0 = Returns rw \<and> odd (unat (sequence rw))
               \<and> (\<forall>s. Ok rw s = (False, sequence rw, rw)))"
  proof
    assume w: "writer_inside False cs"
    from run_alternates [OF assms(3), of rw0] assms(1,2) w
    obtain rw where r: "run cs rw0 = Returns rw" and o: "odd (unat (sequence rw))"
      by auto
    from o have "\<forall>s. Ok rw s = (False, sequence rw, rw)"
      by (simp add: Ok_odd_sequence)
    with r o show "\<exists>rw. run cs rw0 = Returns rw \<and> odd (unat (sequence rw))
               \<and> (\<forall>s. Ok rw s = (False, sequence rw, rw))" by blast
  qed
next
  from assms(4) have ap: "alternates False pre"
    and aw: "alternates (writer_inside False pre) win"
    by (simp_all add: alternates_append)
  from run_alternates [OF ap, of rw0] assms(1,2)
  obtain rw1 where r1: "run pre rw0 = Returns rw1"
    and m1: "mut rw1 = (if writer_inside False pre then Locked else Unlocked)"
    and o1: "odd (unat (sequence rw1)) = writer_inside False pre"
    by auto
  from run_alternates [OF aw m1 o1]
  obtain rw2 where r2: "run win rw1 = Returns rw2" by blast
  have s: "RStamp rw1 = (sequence rw1, rw1)" by (rule RStamp_eq)
  have "writes win = 0 \<and> (\<forall>n. \<not> writer_inside False (pre @ take n win))"
    if "fst (Ok rw2 (sequence rw1)) \<and> writes win < 2 ^ 64"
  proof -
    from Ok_true_window [OF s r2] that
    have e: "even (unat (sequence rw1))" and z: "writes win = 0" by simp_all
    from e o1 have "\<not> writer_inside False pre" by simp
    with z show ?thesis
      by (simp add: writer_inside_append writer_inside_no_writes)
  qed
  with r1 s r2
  show "\<exists>rw1 s rw2.
               run pre rw0 = Returns rw1 \<and> RStamp rw1 = (s, rw1) \<and> run win rw1 = Returns rw2
               \<and> (fst (Ok rw2 s) \<and> writes win < 2 ^ 64 \<longrightarrow>
                    writes win = 0 \<and> (\<forall>n. \<not> writer_inside False (pre @ take n win)))"
    by blast
qed

theorem Ok_guards_reader_window_witness:
  "mut \<lparr>mut = Unlocked, sequence = 6\<rparr> = Unlocked
   \<and> even (unat (sequence \<lparr>mut = Unlocked, sequence = 6\<rparr>))
   \<and> alternates False [OpRStamp, OpLock, OpUnlock, OpLock]
   \<and> alternates False ([OpLock, OpUnlock] @ [OpRStamp, OpOk 1])
   \<and> writer_inside False [OpRStamp, OpLock, OpUnlock, OpLock]
   \<and> (\<exists>rw. run [OpRStamp, OpLock, OpUnlock, OpLock] \<lparr>mut = Unlocked, sequence = 6\<rparr> = Returns rw
         \<and> odd (unat (sequence rw)) \<and> (\<forall>s. Ok rw s = (False, sequence rw, rw)))
   \<and> (\<exists>rw1 s rw2.
         run [OpLock, OpUnlock] \<lparr>mut = Unlocked, sequence = 6\<rparr> = Returns rw1
         \<and> RStamp rw1 = (s, rw1) \<and> run [OpRStamp, OpOk 1] rw1 = Returns rw2
         \<and> fst (Ok rw2 s) \<and> writes [OpRStamp, OpOk 1] < 2 ^ 64
         \<and> writes [OpRStamp, OpOk 1] = 0
         \<and> (\<forall>n. \<not> writer_inside False ([OpLock, OpUnlock] @ take n [OpRStamp, OpOk 1])))"
proof -
  have l: "Lock \<lparr>mut = Unlocked, sequence = 6\<rparr> = Returns \<lparr>mut = Locked, sequence = 7\<rparr>"
    by (simp add: Lock_Unlocked)
  have u: "Unlock \<lparr>mut = Locked, sequence = 7\<rparr> = Returns \<lparr>mut = Unlocked, sequence = 8\<rparr>"
    by (simp add: Unlock_Locked)
  have w: "writes [OpRStamp, OpOk 1] = 0" by (simp add: writes_def)
  from Ok_guards_reader_window [of "\<lparr>mut = Unlocked, sequence = 6\<rparr>"
      "[OpRStamp, OpLock, OpUnlock, OpLock]" "[OpLock, OpUnlock]" "[OpRStamp, OpOk 1]"]
  show ?thesis
    by (simp add: l u w RStamp_eq Ok_eq)
qed

text \<open>Whole critical sections, one after another: \<open>n\<close> of them add \<open>2 * n\<close>.\<close>

lemma run_append:
  "run (xs @ ys) rw =
     (case run xs rw of Returns rw' \<Rightarrow> run ys rw' | Blocks \<Rightarrow> Blocks | Fatal rw' \<Rightarrow> Fatal rw')"
  by (induction xs arbitrary: rw) (simp_all split: outcome.splits)

lemma run_pair:
  assumes "mut rw = Unlocked"
  shows "run [OpLock, OpUnlock] rw = Returns (rw\<lparr>sequence := sequence rw + 2\<rparr>)"
proof -
  have l: "Lock rw = Returns (rw\<lparr>mut := Locked, sequence := sequence rw + 1\<rparr>)"
    using assms by (rule Lock_Unlocked)
  have u: "Unlock (rw\<lparr>mut := Locked, sequence := sequence rw + 1\<rparr>)
      = Returns (rw\<lparr>sequence := sequence rw + 2\<rparr>)"
    using assms by (cases rw) (simp add: Unlock_Locked)
  from l u show ?thesis by simp
qed

lemma run_pairs:
  "mut rw = Unlocked \<Longrightarrow>
   run (concat (replicate n [OpLock, OpUnlock])) rw
     = Returns (rw\<lparr>sequence := sequence rw + 2 * of_nat n\<rparr>)"
proof (induction n arbitrary: rw)
  case 0
  then show ?case by simp
next
  case (Suc n)
  let ?rw2 = "rw\<lparr>sequence := sequence rw + 2\<rparr>"
  have m: "mut ?rw2 = Unlocked" using Suc.prems by simp
  have p: "run [OpLock, OpUnlock] rw = Returns ?rw2"
    using Suc.prems by (rule run_pair)
  have "run (concat (replicate (Suc n) [OpLock, OpUnlock])) rw
      = run ([OpLock, OpUnlock] @ concat (replicate n [OpLock, OpUnlock])) rw"
    by simp
  also have "\<dots> = run (concat (replicate n [OpLock, OpUnlock])) ?rw2"
    by (simp only: run_append p outcome.case)
  also have "\<dots> = Returns (?rw2\<lparr>sequence := sequence ?rw2 + 2 * of_nat n\<rparr>)"
    using m by (rule Suc.IH)
  finally show ?case by (simp add: distrib_left add.assoc)
qed

lemma writes_pairs: "writes (concat (replicate n [OpLock, OpUnlock])) = 2 * n"
  by (induction n) (simp_all add: writes_def)

lemma take_1_pairs:
  "0 < n \<Longrightarrow> take 1 (concat (replicate n [OpLock, OpUnlock])) = [OpLock]"
  by (cases n) simp_all

text \<open>
  C3, as the specification has it, fails without the bound. A reader takes the stamp 0
  on the zero value of the lock; \<open>2 ^ 63\<close> critical sections follow, the first of which
  has a writer inside right after the stamp was taken; they add \<open>2 ^ 64\<close> to the
  sequence, which is 0 again, and \<^verbatim>\<open>Ok\<close> on the stamp returns true.
\<close>

theorem Ok_true_after_full_wrap_counterexample:
  "RStamp \<lparr>mut = Unlocked, sequence = 0\<rparr> = (0, \<lparr>mut = Unlocked, sequence = 0\<rparr>)
   \<and> writer_inside False (take 1 (concat (replicate (2 ^ 63) [OpLock, OpUnlock])))
   \<and> writes (concat (replicate (2 ^ 63) [OpLock, OpUnlock])) = 2 ^ 64
   \<and> run (concat (replicate (2 ^ 63) [OpLock, OpUnlock])) \<lparr>mut = Unlocked, sequence = 0\<rparr>
       = Returns \<lparr>mut = Unlocked, sequence = 0\<rparr>
   \<and> Ok \<lparr>mut = Unlocked, sequence = 0\<rparr> 0 = (True, 0, \<lparr>mut = Unlocked, sequence = 0\<rparr>)"
proof -
  have 1: "RStamp \<lparr>mut = Unlocked, sequence = 0\<rparr> = (0, \<lparr>mut = Unlocked, sequence = 0\<rparr>)"
    by (simp add: RStamp_eq)
  have 2: "writer_inside False (take 1 (concat (replicate (2 ^ 63) [OpLock, OpUnlock])))"
    using take_1_pairs [of "2 ^ 63"] by simp
  have 3: "writes (concat (replicate (2 ^ 63) [OpLock, OpUnlock])) = 2 ^ 64"
    by (simp add: writes_pairs)
  have "run (concat (replicate (2 ^ 63) [OpLock, OpUnlock])) \<lparr>mut = Unlocked, sequence = 0\<rparr>
       = Returns (\<lparr>mut = Unlocked, sequence = 0\<rparr>
           \<lparr>sequence := sequence \<lparr>mut = Unlocked, sequence = 0\<rparr> + 2 * of_nat (2 ^ 63)\<rparr>)"
    by (rule run_pairs) simp
  then have 4: "run (concat (replicate (2 ^ 63) [OpLock, OpUnlock])) \<lparr>mut = Unlocked, sequence = 0\<rparr>
       = Returns \<lparr>mut = Unlocked, sequence = 0\<rparr>"
    by simp
  have 5: "Ok \<lparr>mut = Unlocked, sequence = 0\<rparr> 0 = (True, 0, \<lparr>mut = Unlocked, sequence = 0\<rparr>)"
    by (simp add: Ok_eq)
  from 1 2 3 4 5 show ?thesis by blast
qed

subsection \<open>A reader that arrives during, or after, a writer's critical section\<close>

text \<open>
  C4. Validate-during writer. A stamp taken by \<^verbatim>\<open>RStamp\<close> while a writer is inside
  its critical section is odd, and \<^verbatim>\<open>Ok\<close> returns false on it whatever the lock's state
  is by then. In the sequential run \<^verbatim>\<open>Lock; s := RStamp(); Unlock\<close> from a free lock
  with an even sequence, all three calls return, the first \<^verbatim>\<open>Ok\<close> on the stamp is false
  and renews the stamp, and the second \<^verbatim>\<open>Ok\<close>, on the renewed stamp, is true.
\<close>

theorem validate_during_writer:
  assumes "mut rw = Unlocked" and "even (unat (sequence rw))"
  shows "\<exists>rw1 s rw2 s'.
           Lock rw = Returns rw1 \<and> RStamp rw1 = (s, rw1) \<and> odd (unat s)
           \<and> (\<forall>rw'. \<not> fst (Ok rw' s))
           \<and> Unlock rw1 = Returns rw2
           \<and> Ok rw2 s = (False, s', rw2) \<and> Ok rw2 s' = (True, s', rw2)"
proof -
  let ?rw1 = "rw\<lparr>mut := Locked, sequence := sequence rw + 1\<rparr>"
  let ?rw2 = "rw\<lparr>mut := Unlocked, sequence := sequence rw + 2\<rparr>"
  have l: "Lock rw = Returns ?rw1" using assms(1) by (rule Lock_Unlocked)
  have r: "RStamp ?rw1 = (sequence rw + 1, ?rw1)" by (simp add: RStamp_eq)
  have o: "odd (unat (sequence rw + 1))" using assms(2) by (simp add: parity_succ)
  have f: "\<forall>rw'. \<not> fst (Ok rw' (sequence rw + 1))" using o by (simp add: Ok_eq)
  have u: "Unlock ?rw1 = Returns ?rw2" by (simp add: Unlock_Locked add.assoc)
  have e: "even (unat (sequence rw + 2))" using assms(2) by (simp add: even_unat_word)
  have k1: "Ok ?rw2 (sequence rw + 1) = (False, sequence rw + 2, ?rw2)"
    using o by (simp add: Ok_eq)
  have k2: "Ok ?rw2 (sequence rw + 2) = (True, sequence rw + 2, ?rw2)"
    using e by (simp add: Ok_eq)
  from l r o f u k1 k2 show ?thesis by blast
qed

theorem validate_during_writer_witness:
  "mut \<lparr>mut = Unlocked, sequence = 0\<rparr> = Unlocked
   \<and> even (unat (sequence \<lparr>mut = Unlocked, sequence = 0\<rparr>))
   \<and> (\<exists>rw1 s rw2 s'.
           Lock \<lparr>mut = Unlocked, sequence = 0\<rparr> = Returns rw1 \<and> RStamp rw1 = (s, rw1) \<and> odd (unat s)
           \<and> (\<forall>rw'. \<not> fst (Ok rw' s))
           \<and> Unlock rw1 = Returns rw2
           \<and> Ok rw2 s = (False, s', rw2) \<and> Ok rw2 s' = (True, s', rw2))"
  using validate_during_writer [of "\<lparr>mut = Unlocked, sequence = 0\<rparr>"]
  by simp

lemma writer_inside_pair: "\<not> writer_inside w (cs @ [OpLock, OpUnlock])"
proof (induction cs arbitrary: w)
  case Nil
  show ?case by simp
next
  case (Cons c cs)
  then show ?case by (cases c) simp_all
qed

text \<open>
  C5. Validate-before-begin writer. Take an execution as in the parity invariant that
  ends with a writer's complete \<^verbatim>\<open>Lock\<close>/\<^verbatim>\<open>Unlock\<close> pair, then a reader's \<^verbatim>\<open>RStamp\<close>,
  then any calls of the reader path (no writer intervenes). Everything returns, and the
  first \<^verbatim>\<open>Ok\<close> on that stamp is true and leaves the stamp as it is.
\<close>

theorem validate_after_writer:
  assumes "mut rw0 = Unlocked" and "even (unat (sequence rw0))"
    and "alternates False (cs @ [OpLock, OpUnlock])" and "reads_only rs"
  shows "\<exists>rw s. run (cs @ [OpLock, OpUnlock]) rw0 = Returns rw \<and> RStamp rw = (s, rw)
           \<and> run rs rw = Returns rw \<and> Ok rw s = (True, s, rw)"
proof -
  from run_alternates [OF assms(3), of rw0] assms(1,2)
  obtain rw where r: "run (cs @ [OpLock, OpUnlock]) rw0 = Returns rw"
    and e: "even (unat (sequence rw))"
    by (auto simp add: writer_inside_pair)
  have s: "RStamp rw = (sequence rw, rw)" by (rule RStamp_eq)
  have q: "run rs rw = Returns rw" using assms(4) by (rule run_reads_only)
  have k: "Ok rw (sequence rw) = (True, sequence rw, rw)" using e by (simp add: Ok_eq)
  from r s q k show ?thesis by blast
qed

theorem validate_after_writer_witness:
  "mut \<lparr>mut = Unlocked, sequence = 0\<rparr> = Unlocked
   \<and> even (unat (sequence \<lparr>mut = Unlocked, sequence = 0\<rparr>))
   \<and> alternates False ([] @ [OpLock, OpUnlock]) \<and> reads_only [OpRStamp, OpOk 1]
   \<and> (\<exists>rw s. run ([] @ [OpLock, OpUnlock]) \<lparr>mut = Unlocked, sequence = 0\<rparr> = Returns rw
         \<and> RStamp rw = (s, rw)
         \<and> run [OpRStamp, OpOk 1] rw = Returns rw \<and> Ok rw s = (True, s, rw))"
  using validate_after_writer [of "\<lparr>mut = Unlocked, sequence = 0\<rparr>" "[]" "[OpRStamp, OpOk 1]"]
  by (simp add: reads_only_def writes_def)

subsection \<open>Wraparound\<close>

text \<open>
  C6. The sequence is a 64-bit unsigned counter. From the largest even value,
  \<open>2 ^ 64 - 2\<close>, \<^verbatim>\<open>Lock\<close> gives \<open>2 ^ 64 - 1\<close> and \<^verbatim>\<open>Unlock\<close> wraps to \<open>0\<close>. Every
  increment is an addition modulo \<open>2 ^ 64\<close> and flips the parity, at every value. \<^verbatim>\<open>Ok\<close>
  returns true exactly when the stamp is even and equal to the current sequence, at every
  value; a stamp taken before the wrap fails during and after the writer's section, and
  the renewed stamp \<open>0\<close> validates.
\<close>

theorem wraparound:
  "Lock \<lparr>mut = Unlocked, sequence = 0xFFFFFFFFFFFFFFFE\<rparr>
     = Returns \<lparr>mut = Locked, sequence = 0xFFFFFFFFFFFFFFFF\<rparr>
   \<and> Unlock \<lparr>mut = Locked, sequence = 0xFFFFFFFFFFFFFFFF\<rparr>
     = Returns \<lparr>mut = Unlocked, sequence = 0\<rparr>
   \<and> unat (0xFFFFFFFFFFFFFFFE :: 64 word) = 2 ^ 64 - 2
   \<and> unat (0xFFFFFFFFFFFFFFFF :: 64 word) = 2 ^ 64 - 1
   \<and> unat (sequence (atomic_AddUint64 rw 1)) = (unat (sequence rw) + 1) mod 2 ^ 64
   \<and> odd (unat (sequence (atomic_AddUint64 rw 1))) = even (unat (sequence rw))
   \<and> fst (Ok rw s) = (even (unat s) \<and> sequence rw = s)
   \<and> Ok \<lparr>mut = Locked, sequence = 0xFFFFFFFFFFFFFFFF\<rparr> 0xFFFFFFFFFFFFFFFE
       = (False, 0xFFFFFFFFFFFFFFFF, \<lparr>mut = Locked, sequence = 0xFFFFFFFFFFFFFFFF\<rparr>)
   \<and> Ok \<lparr>mut = Unlocked, sequence = 0\<rparr> 0xFFFFFFFFFFFFFFFE
       = (False, 0, \<lparr>mut = Unlocked, sequence = 0\<rparr>)
   \<and> Ok \<lparr>mut = Unlocked, sequence = 0\<rparr> 0 = (True, 0, \<lparr>mut = Unlocked, sequence = 0\<rparr>)"
proof -
  have 1: "Lock \<lparr>mut = Unlocked, sequence = 0xFFFFFFFFFFFFFFFE\<rparr>
     = Returns \<lparr>mut = Locked, sequence = 0xFFFFFFFFFFFFFFFF\<rparr>"
    by (simp add: Lock_Unlocked)
  have 2: "Unlock \<lparr>mut = Locked, sequence = 0xFFFFFFFFFFFFFFFF\<rparr>
     = Returns \<lparr>mut = Unlocked, sequence = 0\<rparr>"
    by (simp add: Unlock_Locked)
  have 3: "unat (0xFFFFFFFFFFFFFFFE :: 64 word) = 2 ^ 64 - 2" by simp
  have 4: "unat (0xFFFFFFFFFFFFFFFF :: 64 word) = 2 ^ 64 - 1" by simp
  have 5: "unat (sequence (atomic_AddUint64 rw 1)) = (unat (sequence rw) + 1) mod 2 ^ 64"
    by (simp add: atomic_AddUint64_def unat_succ)
  have 6: "odd (unat (sequence (atomic_AddUint64 rw 1))) = even (unat (sequence rw))"
    by (simp add: atomic_AddUint64_def parity_succ)
  have 7: "fst (Ok rw s) = (even (unat s) \<and> sequence rw = s)"
    by (auto simp add: Ok_eq)
  have 8: "Ok \<lparr>mut = Locked, sequence = 0xFFFFFFFFFFFFFFFF\<rparr> 0xFFFFFFFFFFFFFFFE
       = (False, 0xFFFFFFFFFFFFFFFF, \<lparr>mut = Locked, sequence = 0xFFFFFFFFFFFFFFFF\<rparr>)"
    by (simp add: Ok_eq)
  have 9: "Ok \<lparr>mut = Unlocked, sequence = 0\<rparr> 0xFFFFFFFFFFFFFFFE
       = (False, 0, \<lparr>mut = Unlocked, sequence = 0\<rparr>)"
    by (simp add: Ok_eq)
  have 10: "Ok \<lparr>mut = Unlocked, sequence = 0\<rparr> 0 = (True, 0, \<lparr>mut = Unlocked, sequence = 0\<rparr>)"
    by (simp add: Ok_eq)
  from 1 2 3 4 5 6 7 8 9 10 show ?thesis by blast
qed

subsection \<open>What each method changes\<close>

text \<open>
  C7. \<^verbatim>\<open>Lock\<close> blocks or returns, \<^verbatim>\<open>Unlock\<close> returns or aborts; whenever they leave
  a state behind, its sequence is the old one plus one modulo \<open>2 ^ 64\<close>. A \<^verbatim>\<open>Lock\<close>
  followed by its \<^verbatim>\<open>Unlock\<close> adds two in all and leaves the mutex as it was. \<^verbatim>\<open>RStamp\<close> and
  \<^verbatim>\<open>Ok\<close> hand back the lock they were given, sequence and mutex, for every lock and stamp.
\<close>

theorem only_writers_mutate:
  "(Lock rw = Returns rw1 \<longrightarrow>
      sequence rw1 = sequence rw + 1
      \<and> unat (sequence rw1) = (unat (sequence rw) + 1) mod 2 ^ 64)
   \<and> (Lock rw = Blocks \<or> (\<exists>rw'. Lock rw = Returns rw'))
   \<and> (Unlock rw1 = Returns rw2 \<or> Unlock rw1 = Fatal rw2 \<longrightarrow>
      sequence rw2 = sequence rw1 + 1
      \<and> unat (sequence rw2) = (unat (sequence rw1) + 1) mod 2 ^ 64)
   \<and> Unlock rw1 \<noteq> Blocks
   \<and> (Lock rw = Returns rw1 \<and> Unlock rw1 = Returns rw2 \<longrightarrow>
      sequence rw2 = sequence rw + 2
      \<and> unat (sequence rw2) = (unat (sequence rw) + 2) mod 2 ^ 64
      \<and> mut rw2 = mut rw)
   \<and> snd (RStamp rw) = rw
   \<and> snd (snd (Ok rw s)) = rw"
proof -
  have l: "sequence rw1 = sequence rw + 1
      \<and> unat (sequence rw1) = (unat (sequence rw) + 1) mod 2 ^ 64"
    if "Lock rw = Returns rw1"
    using that by (cases "mut rw") (auto simp add: Lock_Unlocked Lock_Locked unat_succ)
  have lb: "Lock rw = Blocks \<or> (\<exists>rw'. Lock rw = Returns rw')"
    by (cases "mut rw") (simp_all add: Lock_Unlocked Lock_Locked)
  have u: "sequence rw2 = sequence rw1 + 1
      \<and> unat (sequence rw2) = (unat (sequence rw1) + 1) mod 2 ^ 64"
    if "Unlock rw1 = Returns rw2 \<or> Unlock rw1 = Fatal rw2"
    using that by (cases "mut rw1") (auto simp add: Unlock_Unlocked Unlock_Locked unat_succ)
  have ub: "Unlock rw1 \<noteq> Blocks"
    by (cases "mut rw1") (simp_all add: Unlock_Unlocked Unlock_Locked)
  have p: "sequence rw2 = sequence rw + 2
      \<and> unat (sequence rw2) = (unat (sequence rw) + 2) mod 2 ^ 64
      \<and> mut rw2 = mut rw"
    if "Lock rw = Returns rw1 \<and> Unlock rw1 = Returns rw2"
  proof (cases "mut rw")
    case Unlocked
    with that show ?thesis
      by (auto simp add: Lock_Unlocked Unlock_Locked unat_word_ariths)
  next
    case Locked
    with that show ?thesis by (simp add: Lock_Locked)
  qed
  from l lb u ub p RStamp_lock [of rw] Ok_lock [of rw s]
  show ?thesis by blast
qed

theorem only_writers_mutate_witness:
  "Lock \<lparr>mut = Unlocked, sequence = 0xFFFFFFFFFFFFFFFF\<rparr> = Returns \<lparr>mut = Locked, sequence = 0\<rparr>
   \<and> Unlock \<lparr>mut = Locked, sequence = 0\<rparr> = Returns \<lparr>mut = Unlocked, sequence = 1\<rparr>
   \<and> sequence \<lparr>mut = Locked, sequence = 0\<rparr>
        = sequence \<lparr>mut = Unlocked, sequence = 0xFFFFFFFFFFFFFFFF\<rparr> + 1
   \<and> sequence \<lparr>mut = Unlocked, sequence = 1 :: 64 word\<rparr>
        = sequence \<lparr>mut = Locked, sequence = 0 :: 64 word\<rparr> + 1
   \<and> sequence \<lparr>mut = Unlocked, sequence = 1 :: 64 word\<rparr>
        = sequence \<lparr>mut = Unlocked, sequence = 0xFFFFFFFFFFFFFFFF\<rparr> + 2"
  using only_writers_mutate [of "\<lparr>mut = Unlocked, sequence = 0xFFFFFFFFFFFFFFFF\<rparr>"
      "\<lparr>mut = Locked, sequence = 0\<rparr>" "\<lparr>mut = Unlocked, sequence = 1\<rparr>" 0]
  by (simp add: Lock_Unlocked Unlock_Locked)

subsection \<open>Unlock without Lock\<close>




subsection \<open>A stamp that validates\<close>

text \<open>
  C10. When \<^verbatim>\<open>Ok\<close> returns true the stamp is what it was; a stamp that differs after the
  call means that \<^verbatim>\<open>Ok\<close> returned false. After a true return, and any calls of the reader
  path in between (no writer), \<^verbatim>\<open>Ok\<close> on the same stamp returns true again.
\<close>

theorem Ok_true_keeps_stamp:
  assumes "Ok rw s = (ok, s1, rw1)" and "reads_only cs"
  shows "(ok \<longrightarrow> s1 = s) \<and> (s1 \<noteq> s \<longrightarrow> \<not> ok)
         \<and> (ok \<longrightarrow> (\<exists>rw2. run cs rw1 = Returns rw2 \<and> Ok rw2 s1 = (True, s1, rw2)))"
proof -
  from assms(1) have k: "ok \<Longrightarrow> s1 = s \<and> rw1 = rw \<and> even (unat s) \<and> sequence rw = s"
    by (auto simp add: Ok_eq split: if_splits)
  have r: "run cs rw1 = Returns rw1" using assms(2) by (rule run_reads_only)
  have "Ok rw1 s1 = (True, s1, rw1)" if ok
    using k [OF that] by (simp add: Ok_eq)
  with r k show ?thesis by auto
qed

theorem Ok_true_keeps_stamp_witness:
  "Ok \<lparr>mut = Unlocked, sequence = 4\<rparr> 4 = (True, 4, \<lparr>mut = Unlocked, sequence = 4\<rparr>)
   \<and> reads_only [OpRStamp, OpOk 3]
   \<and> (\<exists>rw2. run [OpRStamp, OpOk 3] \<lparr>mut = Unlocked, sequence = 4\<rparr> = Returns rw2
         \<and> Ok rw2 4 = (True, 4, rw2))"
  using Ok_true_keeps_stamp [of "\<lparr>mut = Unlocked, sequence = 4\<rparr>" 4 True 4
      "\<lparr>mut = Unlocked, sequence = 4\<rparr>" "[OpRStamp, OpOk 3]"]
  by (simp add: Ok_eq reads_only_def writes_def)

subsection \<open>Concurrent writers exclude each other\<close>

lemma exclusive_initial: "exclusive (initial seq0)"
  by (simp add: exclusive_def initial_def)

lemma exclusive_unique:
  assumes "exclusive \<sigma>" and "place_of \<sigma> t1 \<noteq> Outside" and "place_of \<sigma> t2 \<noteq> Outside"
  shows "t1 = t2 \<and> mut (lock \<sigma>) = Locked"
proof (cases "mut (lock \<sigma>)")
  case Unlocked
  with assms show ?thesis by (simp add: exclusive_def)
next
  case Locked
  with assms(1) obtain h where "\<forall>t. t \<noteq> h \<longrightarrow> place_of \<sigma> t = Outside"
    by (auto simp add: exclusive_def)
  with assms(2,3) have "t1 = h" and "t2 = h" by blast+
  with Locked show ?thesis by simp
qed

lemma step_exclusive:
  assumes "exclusive \<sigma>"
  shows "\<exists>\<sigma>'. step t \<sigma> = Some \<sigma>' \<and> exclusive \<sigma>'"
proof (cases "place_of \<sigma> t")
  case Outside
  show ?thesis
  proof (cases "mut (lock \<sigma>)")
    case Unlocked
    with assms have all: "\<forall>u. place_of \<sigma> u = Outside" by (simp add: exclusive_def)
    let ?\<sigma>' = "\<sigma>\<lparr>lock := (lock \<sigma>)\<lparr>mut := Locked\<rparr>, place_of := (place_of \<sigma>)(t := Acquired)\<rparr>"
    have "step t \<sigma> = Some ?\<sigma>'" using Outside Unlocked by (simp add: step_def mutex_Lock_def)
    moreover have "exclusive ?\<sigma>'" using all by (auto simp add: exclusive_def)
    ultimately show ?thesis by blast
  next
    case Locked
    then have "step t \<sigma> = Some \<sigma>" using Outside by (simp add: step_def mutex_Lock_def)
    with assms show ?thesis by blast
  qed
next
  case Acquired
  then have n: "place_of \<sigma> t \<noteq> Outside" by simp
  have others: "u \<noteq> t \<Longrightarrow> place_of \<sigma> u = Outside" for u
    using exclusive_unique [OF assms n, of u] by blast
  have m: "mut (lock \<sigma>) = Locked" using exclusive_unique [OF assms n n] by simp
  let ?\<sigma>' = "\<sigma>\<lparr>lock := atomic_AddUint64 (lock \<sigma>) 1, place_of := (place_of \<sigma>)(t := Critical)\<rparr>"
  have "step t \<sigma> = Some ?\<sigma>'" using Acquired by (simp add: step_def)
  moreover have "exclusive ?\<sigma>'"
    using m others by (auto simp add: exclusive_def atomic_AddUint64_def intro!: exI [of _ t])
  ultimately show ?thesis by blast
next
  case Critical
  then have n: "place_of \<sigma> t \<noteq> Outside" by simp
  have others: "u \<noteq> t \<Longrightarrow> place_of \<sigma> u = Outside" for u
    using exclusive_unique [OF assms n, of u] by blast
  have m: "mut (lock \<sigma>) = Locked" using exclusive_unique [OF assms n n] by simp
  let ?\<sigma>' = "\<sigma>\<lparr>lock := atomic_AddUint64 (lock \<sigma>) 1, place_of := (place_of \<sigma>)(t := Incremented)\<rparr>"
  have "step t \<sigma> = Some ?\<sigma>'" using Critical by (simp add: step_def)
  moreover have "exclusive ?\<sigma>'"
    using m others by (auto simp add: exclusive_def atomic_AddUint64_def intro!: exI [of _ t])
  ultimately show ?thesis by blast
next
  case Incremented
  then have n: "place_of \<sigma> t \<noteq> Outside" by simp
  have others: "u \<noteq> t \<Longrightarrow> place_of \<sigma> u = Outside" for u
    using exclusive_unique [OF assms n, of u] by blast
  have m: "mut (lock \<sigma>) = Locked" using exclusive_unique [OF assms n n] by simp
  let ?\<sigma>' = "\<sigma>\<lparr>lock := (lock \<sigma>)\<lparr>mut := Unlocked\<rparr>, place_of := (place_of \<sigma>)(t := Outside)\<rparr>"
  have "step t \<sigma> = Some ?\<sigma>'" using Incremented m by (simp add: step_def mutex_Unlock_def)
  moreover have "exclusive ?\<sigma>'"
    using others by (auto simp add: exclusive_def)
  ultimately show ?thesis by blast
qed

lemma run_schedule_exclusive:
  "exclusive \<sigma> \<Longrightarrow> \<exists>\<sigma>'. run_schedule ts \<sigma> = Some \<sigma>' \<and> exclusive \<sigma>'"
proof (induction ts arbitrary: \<sigma>)
  case Nil
  then show ?case by simp
next
  case (Cons t ts)
  from step_exclusive [OF Cons.prems, of t]
  obtain \<sigma>1 where s: "step t \<sigma> = Some \<sigma>1" and e: "exclusive \<sigma>1" by blast
  from Cons.IH [OF e] s show ?case by simp
qed

text \<open>
  C9. Single-writer mutual exclusion. Any number of goroutines run the writer's loop
  on one lock, under any schedule, from any initial sequence. No execution hits the
  fatal error, and in every state it reaches at most one goroutine is between the return
  of its \<^verbatim>\<open>Lock\<close> and the call of its \<^verbatim>\<open>Unlock\<close>.
\<close>

theorem single_writer_mutual_exclusion:
  "\<exists>\<sigma>. run_schedule ts (initial seq0) = Some \<sigma>
        \<and> (\<forall>t1 t2. place_of \<sigma> t1 = Critical \<and> place_of \<sigma> t2 = Critical \<longrightarrow> t1 = t2)"
proof -
  from run_schedule_exclusive [OF exclusive_initial, of ts seq0]
  obtain \<sigma> where r: "run_schedule ts (initial seq0) = Some \<sigma>" and e: "exclusive \<sigma>" by blast
  have "t1 = t2" if "place_of \<sigma> t1 = Critical \<and> place_of \<sigma> t2 = Critical" for t1 t2
    using exclusive_unique [OF e, of t1 t2] that by simp
  with r show ?thesis by blast
qed

theorem single_writer_mutual_exclusion_witness:
  "\<exists>\<sigma>. run_schedule [0, 1, 0, 1, 2] (initial 0) = Some \<sigma>
        \<and> place_of \<sigma> 0 = Critical \<and> place_of \<sigma> 1 \<noteq> Critical \<and> place_of \<sigma> 2 \<noteq> Critical"
proof -
  from single_writer_mutual_exclusion [of "[0, 1, 0, 1, 2]" 0]
  obtain \<sigma> where r: "run_schedule [0, 1, 0, 1, 2] (initial 0) = Some \<sigma>"
    and x: "\<forall>t1 t2. place_of \<sigma> t1 = Critical \<and> place_of \<sigma> t2 = Critical \<longrightarrow> t1 = t2"
    by blast
  from r have c: "place_of \<sigma> 0 = Critical"
    by (auto simp add: initial_def step_def mutex_Lock_def atomic_AddUint64_def)
  from x c have "place_of \<sigma> 1 \<noteq> Critical" and "place_of \<sigma> 2 \<noteq> Critical"
    by fastforce+
  with r c show ?thesis by blast
qed

text \<open>
  The parity invariant holds for concurrent writers as well: from an even sequence, in
  every reachable state the sequence is odd exactly when a writer is in its critical
  section.
\<close>

lemma critical_upd:
  assumes "f t \<noteq> Critical" and "p \<noteq> Critical"
  shows "(\<exists>u. (f(t := p)) u = Critical) = (\<exists>u. f u = Critical)"
proof
  assume "\<exists>u. (f(t := p)) u = Critical"
  then obtain u where u: "(f(t := p)) u = Critical" ..
  with assms(2) have "u \<noteq> t" by auto
  with u show "\<exists>u. f u = Critical" by auto
next
  assume "\<exists>u. f u = Critical"
  then obtain u where u: "f u = Critical" ..
  with assms(1) have "u \<noteq> t" by auto
  with u have "(f(t := p)) u = Critical" by simp
  then show "\<exists>u. (f(t := p)) u = Critical" ..
qed

lemma step_parity:
  assumes "exclusive \<sigma>" and "parity_ok \<sigma>" and "step t \<sigma> = Some \<sigma>'"
  shows "parity_ok \<sigma>'"
proof (cases "place_of \<sigma> t")
  case Outside
  with assms(3) have "\<sigma>' = \<sigma> \<or>
      \<sigma>' = \<sigma>\<lparr>lock := (lock \<sigma>)\<lparr>mut := Locked\<rparr>, place_of := (place_of \<sigma>)(t := Acquired)\<rparr>"
    by (auto simp add: step_def mutex_Lock_def split: Mutex.splits)
  moreover have "(\<exists>u. ((place_of \<sigma>)(t := Acquired)) u = Critical) = (\<exists>u. place_of \<sigma> u = Critical)"
    using Outside by (intro critical_upd) simp_all
  ultimately show ?thesis using assms(2)
    by (auto simp add: parity_ok_def simp del: fun_upd_apply)
next
  case Acquired
  then have n: "place_of \<sigma> t \<noteq> Outside" by simp
  have others: "u \<noteq> t \<Longrightarrow> place_of \<sigma> u = Outside" for u
    using exclusive_unique [OF assms(1) n, of u] by blast
  have "\<not> (\<exists>u. place_of \<sigma> u = Critical)"
    using others Acquired by (metis place.distinct(3,7))
  with assms(2) have e: "even (unat (sequence (lock \<sigma>)))" by (simp add: parity_ok_def)
  from assms(3) Acquired
  have "\<sigma>' = \<sigma>\<lparr>lock := atomic_AddUint64 (lock \<sigma>) 1, place_of := (place_of \<sigma>)(t := Critical)\<rparr>"
    by (simp add: step_def)
  with e show ?thesis
    by (auto simp add: parity_ok_def atomic_AddUint64_def parity_succ)
next
  case Critical
  then have n: "place_of \<sigma> t \<noteq> Outside" by simp
  have others: "u \<noteq> t \<Longrightarrow> place_of \<sigma> u = Outside" for u
    using exclusive_unique [OF assms(1) n, of u] by blast
  from assms(2) Critical have o: "odd (unat (sequence (lock \<sigma>)))"
    by (auto simp add: parity_ok_def)
  from assms(3) Critical
  have "\<sigma>' = \<sigma>\<lparr>lock := atomic_AddUint64 (lock \<sigma>) 1, place_of := (place_of \<sigma>)(t := Incremented)\<rparr>"
    by (simp add: step_def)
  with o others show ?thesis
    by (auto simp add: parity_ok_def atomic_AddUint64_def parity_succ)
next
  case Incremented
  then have n: "place_of \<sigma> t \<noteq> Outside" by simp
  have m: "mut (lock \<sigma>) = Locked" using exclusive_unique [OF assms(1) n n] by simp
  from assms(3) Incremented m
  have "\<sigma>' = \<sigma>\<lparr>lock := (lock \<sigma>)\<lparr>mut := Unlocked\<rparr>, place_of := (place_of \<sigma>)(t := Outside)\<rparr>"
    by (simp add: step_def mutex_Unlock_def)
  moreover have "(\<exists>u. ((place_of \<sigma>)(t := Outside)) u = Critical) = (\<exists>u. place_of \<sigma> u = Critical)"
    using Incremented by (intro critical_upd) simp_all
  ultimately show ?thesis using assms(2)
    by (simp add: parity_ok_def del: fun_upd_apply)
qed

lemma run_schedule_parity:
  "exclusive \<sigma> \<Longrightarrow> parity_ok \<sigma> \<Longrightarrow> run_schedule ts \<sigma> = Some \<sigma>' \<Longrightarrow> parity_ok \<sigma>'"
proof (induction ts arbitrary: \<sigma>)
  case Nil
  then show ?case by simp
next
  case (Cons t ts)
  from step_exclusive [OF Cons.prems(1), of t]
  obtain \<sigma>1 where s: "step t \<sigma> = Some \<sigma>1" and e: "exclusive \<sigma>1" by blast
  from step_parity [OF Cons.prems(1,2) s] have p: "parity_ok \<sigma>1" .
  from Cons.prems(3) s have "run_schedule ts \<sigma>1 = Some \<sigma>'" by simp
  from Cons.IH [OF e p this] show ?case .
qed

lemma concurrent_parity:
  assumes "even (unat seq0)"
  shows "\<exists>\<sigma>. run_schedule ts (initial seq0) = Some \<sigma>
           \<and> odd (unat (sequence (lock \<sigma>))) = (\<exists>t. place_of \<sigma> t = Critical)"
proof -
  from run_schedule_exclusive [OF exclusive_initial, of ts seq0]
  obtain \<sigma> where r: "run_schedule ts (initial seq0) = Some \<sigma>" by blast
  have "parity_ok (initial seq0)" using assms by (simp add: parity_ok_def initial_def)
  from run_schedule_parity [OF exclusive_initial this r] r show ?thesis
    by (auto simp add: parity_ok_def)
qed

end
